theory Spec2Isabelle
  imports Main "HOL-Library.Word"
begin

section \<open>Bytes, strings, errors\<close>

text \<open>
  A Go \<^verbatim>\<open>[]byte\<close> is a list of 8-bit words. A Go \<^verbatim>\<open>string\<close> is an immutable byte
  sequence, so it is a list of bytes too, and the conversions \<^verbatim>\<open>string(uname)\<close> and
  \<^verbatim>\<open>WriteString\<close> / \<^verbatim>\<open>Bytes()\<close> of auth.go are the identity; \<^verbatim>\<open>+\<close> on strings is \<open>@\<close>.
\<close>

type_synonym byte = "8 word"
type_synonym bytes = "byte list"
type_synonym gostring = "byte list"

text \<open>
  The error values that reach a caller of auth.go. A stream returns the two end-of-stream
  errors of package io or an error of its own (numbered); the authenticators pass such an
  error on unchanged, as \<open>Transport\<close>. The store returns the \<^verbatim>\<open>UserNotExist\<close> struct with its
  username, and the error made by \<^verbatim>\<open>fmt.Errorf("user %s has bad password", username)\<close>.
\<close>

datatype ioerror = EOF | ErrUnexpectedEOF | StreamError nat

datatype error =
    Transport ioerror
  | UserNotExist gostring
  | BadPassword gostring

text \<open>
  A call either returns or panics. The two run-time panics auth.go can raise: calling a
  method of a nil interface value, and assigning to an entry of a nil map.
\<close>

datatype panic = NilDereference | NilMapAssignment

datatype 'a outcome = Returns 'a | Panics panic

section \<open>The stream: io.Reader and io.Writer\<close>

text \<open>
  An \<^verbatim>\<open>io.Reader\<close> is what its successive \<^verbatim>\<open>Read\<close> calls will answer: a chunk of bytes
  that has arrived (possibly empty, possibly longer than the caller's buffer) or an error.
  After the last event the stream is closed and every \<^verbatim>\<open>Read\<close> answers \<^verbatim>\<open>io.EOF\<close>.
  \<open>Read r k\<close> is \<^verbatim>\<open>r.Read(p)\<close> with \<^verbatim>\<open>len(p) = k\<close>: the bytes stored in \<^verbatim>\<open>p\<close>, the
  error, and the reader afterwards.
\<close>

datatype event = Data bytes | Fail ioerror

type_synonym reader = "event list"

fun Read :: "reader \<Rightarrow> nat \<Rightarrow> (bytes \<times> ioerror option) \<times> reader" where
  "Read [] k = (([], Some EOF), [])"
| "Read (Fail e # es) k = (([], Some e), es)"
| "Read (Data bs # es) k =
     (if length bs \<le> k then ((bs, None), es)
      else ((take k bs, None), Data (drop k bs) # es))"

text \<open>
  \<^verbatim>\<open>io.ReadAtLeast(r, buf, min)\<close> of the standard library, for \<^verbatim>\<open>len(buf) = min\<close>, which
  is how each of the four calls of \<^verbatim>\<open>ReadUserPwd\<close> passes it (so the \<^verbatim>\<open>ErrShortBuffer\<close>
  guard never fires):
  \<^verbatim>\<open>
  for n < min && err == nil { nn, err = r.Read(buf[n:]); n += nn }
  if n >= min { err = nil } else if n > 0 && err == EOF { err = ErrUnexpectedEOF }
  \<close>
  \<open>buf\<close> below is \<^verbatim>\<open>buf[:n]\<close>, the bytes read so far.
\<close>

function ReadAtLeast_loop :: "reader \<Rightarrow> nat \<Rightarrow> bytes \<Rightarrow> (bytes \<times> ioerror option) \<times> reader" where
  "ReadAtLeast_loop r mn buf =
     (if length buf < mn then
        (case Read r (mn - length buf) of
           ((bs, None), r') \<Rightarrow> ReadAtLeast_loop r' mn (buf @ bs)
         | ((bs, Some e), r') \<Rightarrow> ((buf @ bs, Some e), r'))
      else ((buf, None), r))"
  by pat_completeness auto
termination
proof (relation "measure (\<lambda>(r, mn, buf). length r + (mn - length buf))", goal_cases)
  case 1
  show ?case by simp
next
  case (2 r mn buf x1 r' bs eo)
  then show ?case
    by (cases "(r, mn - length buf)" rule: Read.cases) (auto split: if_splits)
qed

definition ReadAtLeast :: "reader \<Rightarrow> nat \<Rightarrow> (bytes \<times> ioerror option) \<times> reader" where
  "ReadAtLeast r mn =
     (case ReadAtLeast_loop r mn [] of
        ((buf, err), r') \<Rightarrow>
          ((buf,
            if mn \<le> length buf then None
            else if 0 < length buf \<and> err = Some EOF then Some ErrUnexpectedEOF
            else err), r'))"

text \<open>
  An \<^verbatim>\<open>io.Writer\<close> is the bytes it has accepted so far and what its next \<^verbatim>\<open>Write\<close>
  calls will do: accept the whole slice, or accept only the first \<open>n\<close> bytes and return an
  error. With no entry left every write is accepted.
\<close>

datatype wevent = Accept | Reject nat ioerror

record writer =
  written :: bytes
  pending :: "wevent list"

fun Write :: "writer \<Rightarrow> bytes \<Rightarrow> ioerror option \<times> writer" where
  "Write w p =
     (case pending w of
        [] \<Rightarrow> (None, w\<lparr>written := written w @ p\<rparr>)
      | Accept # ws \<Rightarrow> (None, w\<lparr>written := written w @ p, pending := ws\<rparr>)
      | Reject n e # ws \<Rightarrow> (Some e, w\<lparr>written := written w @ take n p, pending := ws\<rparr>))"

section \<open>NoAuth\<close>

text \<open>
  Modelled from the spec: the constant \<^verbatim>\<open>NO_AUTHENTICATION_REQUIRED\<close> is declared outside
  auth.go; the spec gives the no-auth reply as \<^verbatim>\<open>[V, 0x00]\<close>. The protocol version
  \<^verbatim>\<open>Version5\<close> is declared outside auth.go as well and is a parameter of both
  authenticators.
\<close>

definition NO_AUTHENTICATION_REQUIRED :: byte where
  "NO_AUTHENTICATION_REQUIRED = 0"

definition NoAuth_Authenticate :: "byte \<Rightarrow> reader \<Rightarrow> writer \<Rightarrow> error option \<times> reader \<times> writer" where
  "NoAuth_Authenticate Version5 inp out =
     (let reply = [Version5, NO_AUTHENTICATION_REQUIRED];
          (err, out') = Write out reply
      in if err \<noteq> None then (map_option Transport err, inp, out') else (None, inp, out'))"

section \<open>UserPwdAuth\<close>

text \<open>
  \<^verbatim>\<open>ReadUserPwd\<close>: four reads, each returning the error of the first that fails.
  \<^verbatim>\<open>ulen\<close> is a two-byte buffer and \<^verbatim>\<open>plen\<close> a one-byte buffer; a read that returned no
  error filled its buffer, so \<open>ulen ! 1\<close> and \<open>plen ! 0\<close> are inside it.
\<close>

definition ReadUserPwd :: "reader \<Rightarrow> (ioerror + bytes \<times> bytes) \<times> reader" where
  "ReadUserPwd inp =
     (case ReadAtLeast inp 2 of
        ((ulen, Some err), in1) \<Rightarrow> (Inl err, in1)
      | ((ulen, None), in1) \<Rightarrow>
     (case ReadAtLeast in1 (unat (ulen ! 1)) of
        ((uname, Some err), in2) \<Rightarrow> (Inl err, in2)
      | ((uname, None), in2) \<Rightarrow>
     (case ReadAtLeast in2 1 of
        ((plen, Some err), in3) \<Rightarrow> (Inl err, in3)
      | ((plen, None), in3) \<Rightarrow>
     (case ReadAtLeast in3 (unat (plen ! 0)) of
        ((passwd, Some err), in4) \<Rightarrow> (Inl err, in4)
      | ((passwd, None), in4) \<Rightarrow> (Inr (uname, passwd), in4)))))"

text \<open>
  The embedded \<^verbatim>\<open>UserPwdStore\<close> interface value, as the authenticator uses it: nil, or the
  \<^verbatim>\<open>Validate\<close> method of some store.
\<close>

type_synonym UserPwdStore = "(gostring \<Rightarrow> gostring \<Rightarrow> error option outcome) option"

definition UserPwdAuth_Authenticate ::
  "byte \<Rightarrow> UserPwdStore \<Rightarrow> reader \<Rightarrow> writer \<Rightarrow> error option outcome \<times> reader \<times> writer" where
  "UserPwdAuth_Authenticate Version5 u inp out =
     (case ReadUserPwd inp of
        (Inl err, in') \<Rightarrow> (Returns (Some (Transport err)), in', out)
      | (Inr (uname, passwd), in') \<Rightarrow>
          (case u of
             None \<Rightarrow> (Panics NilDereference, in', out)
           | Some Validate \<Rightarrow>
               (case Validate uname passwd of
                  Panics p \<Rightarrow> (Panics p, in', out)
                | Returns (Some err) \<Rightarrow>
                    (let reply = [Version5, 1];
                         (err1, out') = Write out reply
                     in if err1 \<noteq> None then (Returns (Some err), in', out')
                        else (Returns (Some err), in', out'))
                | Returns None \<Rightarrow>
                    (let reply = [Version5, 0];
                         (err, out') = Write out reply
                     in if err \<noteq> None then (Returns (map_option Transport err), in', out')
                        else (Returns None, in', out')))))"

section \<open>MemoryStore\<close>

text \<open>
  \<^verbatim>\<open>hash.Hash\<close> of the standard library: an implementation is its digest function and the
  bytes written to it so far. \<^verbatim>\<open>Sum(b)\<close> "appends the current hash to b and returns the
  resulting slice; it does not change the underlying hash state". auth.go never calls
  \<^verbatim>\<open>Write\<close> on the hash, so the state is the one the store was built with.
\<close>

record hash_Hash =
  digest :: "bytes \<Rightarrow> bytes"
  absorbed :: bytes

definition hash_Sum :: "hash_Hash \<Rightarrow> bytes \<Rightarrow> bytes" where
  "hash_Sum h b = b @ digest h (absorbed h)"

text \<open>
  The struct. \<^verbatim>\<open>Users\<close> and \<^verbatim>\<open>Hash\<close> may be nil. The mutex \<^verbatim>\<open>mu\<close> is left out: every
  method locks it on entry and a deferred \<^verbatim>\<open>Unlock\<close> releases it on exit, so each call
  below is one atomic step of a sequential history.
\<close>

record MemoryStore =
  Users :: "(gostring \<rightharpoonup> bytes) option"
  Hash :: "hash_Hash option"
  algoSecret :: gostring

text \<open>Reading a Go map: a nil map has no entry.\<close>

definition lookup :: "(gostring \<rightharpoonup> bytes) option \<Rightarrow> gostring \<Rightarrow> bytes option" where
  "lookup us k = (case us of None \<Rightarrow> None | Some f \<Rightarrow> f k)"

definition MemoryStore_Set ::
  "MemoryStore \<Rightarrow> gostring \<Rightarrow> gostring \<Rightarrow> (error option \<times> MemoryStore) outcome" where
  "MemoryStore_Set m username password =
     (let build = password @ algoSecret m in
      case Hash m of
        None \<Rightarrow> Panics NilDereference
      | Some h \<Rightarrow>
          (let cryptPasswd = hash_Sum h build in
           case Users m of
             None \<Rightarrow> Panics NilMapAssignment
           | Some us \<Rightarrow> Returns (None, m\<lparr>Users := Some (us(username \<mapsto> cryptPasswd))\<rparr>)))"

definition MemoryStore_Del :: "MemoryStore \<Rightarrow> gostring \<Rightarrow> error option \<times> MemoryStore" where
  "MemoryStore_Del m username =
     (case lookup (Users m) username of
        None \<Rightarrow> (Some (UserNotExist username), m)
      | Some v \<Rightarrow> (None, m\<lparr>Users := map_option (\<lambda>us. us(username := None)) (Users m)\<rparr>))"

definition MemoryStore_Validate :: "MemoryStore \<Rightarrow> gostring \<Rightarrow> gostring \<Rightarrow> error option outcome" where
  "MemoryStore_Validate m username password =
     (case lookup (Users m) username of
        None \<Rightarrow> Returns (Some (UserNotExist username))
      | Some stored \<Rightarrow>
          (let build = password @ algoSecret m in
           case Hash m of
             None \<Rightarrow> Panics NilDereference
           | Some h \<Rightarrow>
               (let cryptPasswd = hash_Sum h build in
                if cryptPasswd \<noteq> stored then Returns (Some (BadPassword username))
                else Returns None)))"

section \<open>Streams and histories, for stating the properties\<close>

text \<open>
  The bytes a reader hands over before its first error or its end, whatever the chunks,
  and the error that then ends it (\<^verbatim>\<open>io.EOF\<close> for a stream that is closed).
\<close>

fun delivered :: "reader \<Rightarrow> bytes" where
  "delivered [] = []"
| "delivered (Fail e # es) = []"
| "delivered (Data bs # es) = bs @ delivered es"

fun stream_end :: "reader \<Rightarrow> ioerror" where
  "stream_end [] = EOF"
| "stream_end (Fail e # es) = e"
| "stream_end (Data bs # es) = stream_end es"

text \<open>
  The same stream with another first byte: two streams differ only in their first byte
  exactly when one is \<open>set_first b\<close> of the other. A stream that fails or ends before
  its first byte has none to change.
\<close>

fun set_first :: "byte \<Rightarrow> reader \<Rightarrow> reader" where
  "set_first b [] = []"
| "set_first b (Fail e # es) = Fail e # es"
| "set_first b (Data [] # es) = Data [] # set_first b es"
| "set_first b (Data (x # xs) # es) = Data (b # xs) # es"

text \<open>
  A sequential history of calls on one store. \<open>step\<close> is the store after a call; a call
  that panics or returns an error leaves the map as it was.
\<close>

datatype call = CallSet gostring gostring | CallDel gostring | CallValidate gostring gostring

fun step :: "MemoryStore \<Rightarrow> call \<Rightarrow> MemoryStore" where
  "step m (CallSet u p) =
     (case MemoryStore_Set m u p of Returns (e, m') \<Rightarrow> m' | Panics x \<Rightarrow> m)"
| "step m (CallDel u) = snd (MemoryStore_Del m u)"
| "step m (CallValidate u p) = m"

fun sets_user :: "gostring \<Rightarrow> call \<Rightarrow> bool" where
  "sets_user u (CallSet u' p) = (u' = u)"
| "sets_user u (CallDel u') = False"
| "sets_user u (CallValidate u' p) = False"

fun writes_user :: "gostring \<Rightarrow> call \<Rightarrow> bool" where
  "writes_user u (CallSet u' p) = (u' = u)"
| "writes_user u (CallDel u') = (u' = u)"
| "writes_user u (CallValidate u' p) = False"

text \<open>
  A small hash and an empty store built on it, for running the definitions: the digest of
  the bytes written is their sum and their number, the secret is the one byte \<^verbatim>\<open>s\<close>.
\<close>

definition example_hash :: hash_Hash where
  "example_hash = \<lparr>digest = (\<lambda>bs. [sum_list bs, of_nat (length bs)]), absorbed = []\<rparr>"

definition example_store :: MemoryStore where
  "example_store = \<lparr>Users = Some Map.empty, Hash = Some example_hash, algoSecret = [0x73]\<rparr>"

section \<open>Reading from a stream\<close>

lemma lookup_simps:
  "lookup None k = None"
  "lookup (Some f) k = f k"
  by (simp_all add: lookup_def)

declare ReadAtLeast_loop.simps [simp del]

lemma loop_done: "mn \<le> length buf \<Longrightarrow> ReadAtLeast_loop r mn buf = ((buf, None), r)"
  by (simp add: ReadAtLeast_loop.simps [of r mn buf])

lemma loop_closed: "length buf < mn \<Longrightarrow> ReadAtLeast_loop [] mn buf = ((buf, Some EOF), [])"
  by (simp add: ReadAtLeast_loop.simps [of "[]" mn buf])

lemma loop_fail:
  "length buf < mn \<Longrightarrow> ReadAtLeast_loop (Fail e # es) mn buf = ((buf, Some e), es)"
  by (simp add: ReadAtLeast_loop.simps [of "Fail e # es" mn buf])

lemma loop_fit:
  "length buf < mn \<Longrightarrow> length bs \<le> mn - length buf \<Longrightarrow>
   ReadAtLeast_loop (Data bs # es) mn buf = ReadAtLeast_loop es mn (buf @ bs)"
  by (simp add: ReadAtLeast_loop.simps [of "Data bs # es" mn buf])

lemma loop_cut:
  "length buf < mn \<Longrightarrow> mn - length buf < length bs \<Longrightarrow>
   ReadAtLeast_loop (Data bs # es) mn buf =
     ((buf @ take (mn - length buf) bs, None), Data (drop (mn - length buf) bs) # es)"
  by (simp add: ReadAtLeast_loop.simps [of "Data bs # es" mn buf] loop_done)

lemma loop_enough:
  "mn \<le> length buf + length (delivered r) \<Longrightarrow>
   fst (ReadAtLeast_loop r mn buf) = (buf @ take (mn - length buf) (delivered r), None) \<and>
   delivered (snd (ReadAtLeast_loop r mn buf)) = drop (mn - length buf) (delivered r) \<and>
   stream_end (snd (ReadAtLeast_loop r mn buf)) = stream_end r"
proof (induction r arbitrary: buf)
  case Nil
  then show ?case by (simp add: loop_done)
next
  case (Cons ev es)
  show ?case
  proof (cases "mn \<le> length buf")
    case True
    then show ?thesis by (simp add: loop_done)
  next
    case False
    then have lt: "length buf < mn" by simp
    show ?thesis
    proof (cases ev)
      case (Fail e)
      with Cons.prems lt show ?thesis by simp
    next
      case (Data bs)
      show ?thesis
      proof (cases "length bs \<le> mn - length buf")
        case True
        have "mn \<le> length (buf @ bs) + length (delivered es)"
          using Cons.prems Data by simp
        from Cons.IH [OF this] show ?thesis
          using lt True Data by (simp add: loop_fit)
      next
        case False
        then show ?thesis
          using lt Data by (simp add: loop_cut)
      qed
    qed
  qed
qed

lemma loop_short:
  "length buf + length (delivered r) < mn \<Longrightarrow>
   fst (ReadAtLeast_loop r mn buf) = (buf @ delivered r, Some (stream_end r))"
proof (induction r arbitrary: buf)
  case Nil
  then show ?case by (simp add: loop_closed)
next
  case (Cons ev es)
  then have lt: "length buf < mn" by simp
  show ?case
  proof (cases ev)
    case (Fail e)
    with lt show ?thesis by (simp add: loop_fail)
  next
    case (Data bs)
    with Cons.prems have le: "length bs \<le> mn - length buf" by simp
    have "length (buf @ bs) + length (delivered es) < mn"
      using Cons.prems Data by simp
    from Cons.IH [OF this] show ?thesis
      using lt le Data by (simp add: loop_fit)
  qed
qed

lemma ReadAtLeast_enough:
  assumes "n \<le> length (delivered r)"
  shows "fst (ReadAtLeast r n) = (take n (delivered r), None)"
    and "delivered (snd (ReadAtLeast r n)) = drop n (delivered r)"
    and "stream_end (snd (ReadAtLeast r n)) = stream_end r"
  using loop_enough [of n "[]" r] assms
  by (auto simp: ReadAtLeast_def split: prod.splits)

lemma ReadAtLeast_short:
  assumes "length (delivered r) < n"
  shows "fst (ReadAtLeast r n) =
     (delivered r, Some (if delivered r \<noteq> [] \<and> stream_end r = EOF then ErrUnexpectedEOF else stream_end r))"
  using loop_short [of "[]" r n] assms
  by (auto simp: ReadAtLeast_def split: prod.splits)

lemma ReadAtLeast_Some:
  assumes "n \<le> length (delivered r)"
  shows "\<exists>r'. ReadAtLeast r n = ((take n (delivered r), None), r') \<and>
     delivered r' = drop n (delivered r) \<and> stream_end r' = stream_end r"
  using ReadAtLeast_enough [OF assms] by (cases "ReadAtLeast r n") auto

lemma ReadAtLeast_None:
  assumes "length (delivered r) < n"
  shows "\<exists>r'. ReadAtLeast r n =
     ((delivered r, Some (if delivered r \<noteq> [] \<and> stream_end r = EOF then ErrUnexpectedEOF else stream_end r)), r')"
  using ReadAtLeast_short [OF assms] by (cases "ReadAtLeast r n") auto

lemma ReadUserPwd_parsed:
  assumes d: "delivered r = ver # ulen # uname @ plen # passwd @ rest"
    and u: "length uname = unat ulen" and p: "length passwd = unat plen"
  shows "fst (ReadUserPwd r) = Inr (uname, passwd)"
    and "delivered (snd (ReadUserPwd r)) = rest"
    and "stream_end (snd (ReadUserPwd r)) = stream_end r"
proof -
  from d obtain r1 where 1: "ReadAtLeast r 2 = (([ver, ulen], None), r1)"
    and d1: "delivered r1 = uname @ plen # passwd @ rest" and e1: "stream_end r1 = stream_end r"
    using ReadAtLeast_Some [of 2 r] by auto
  from d1 u obtain r2 where 2: "ReadAtLeast r1 (unat ulen) = ((uname, None), r2)"
    and d2: "delivered r2 = plen # passwd @ rest" and e2: "stream_end r2 = stream_end r1"
    using ReadAtLeast_Some [of "unat ulen" r1] by auto
  from d2 obtain r3 where 3: "ReadAtLeast r2 (Suc 0) = (([plen], None), r3)"
    and d3: "delivered r3 = passwd @ rest" and e3: "stream_end r3 = stream_end r2"
    using ReadAtLeast_Some [of "Suc 0" r2] by auto
  from d3 p obtain r4 where 4: "ReadAtLeast r3 (unat plen) = ((passwd, None), r4)"
    and d4: "delivered r4 = rest" and e4: "stream_end r4 = stream_end r3"
    using ReadAtLeast_Some [of "unat plen" r3] by auto
  have R: "ReadUserPwd r = (Inr (uname, passwd), r4)"
    by (simp add: ReadUserPwd_def 1 2 3 4)
  show "fst (ReadUserPwd r) = Inr (uname, passwd)" by (simp add: R)
  show "delivered (snd (ReadUserPwd r)) = rest" by (simp add: R d4)
  show "stream_end (snd (ReadUserPwd r)) = stream_end r" by (simp add: R e1 e2 e3 e4)
qed

lemma Authenticate_read_error:
  assumes "fst (ReadUserPwd inp) = Inl e"
  shows "UserPwdAuth_Authenticate V u inp out = (Returns (Some (Transport e)), snd (ReadUserPwd inp), out)"
  using assms by (cases "ReadUserPwd inp") (simp add: UserPwdAuth_Authenticate_def)

lemma Authenticate_parsed:
  assumes "fst (ReadUserPwd inp) = Inr (un, pw)"
  shows "UserPwdAuth_Authenticate V (Some validate) inp out =
     (case validate un pw of
        Panics p \<Rightarrow> (Panics p, snd (ReadUserPwd inp), out)
      | Returns (Some err) \<Rightarrow> (Returns (Some err), snd (ReadUserPwd inp), snd (Write out [V, 1]))
      | Returns None \<Rightarrow>
          (Returns (map_option Transport (fst (Write out [V, 0]))), snd (ReadUserPwd inp),
           snd (Write out [V, 0])))"
  using assms
  by (cases "ReadUserPwd inp")
     (auto simp: UserPwdAuth_Authenticate_def Let_def split: outcome.splits option.splits prod.splits)

lemma Authenticate_cong:
  assumes "fst (ReadUserPwd a) = fst (ReadUserPwd b)"
  shows "fst (UserPwdAuth_Authenticate V u a out) = fst (UserPwdAuth_Authenticate V u b out)"
    and "snd (snd (UserPwdAuth_Authenticate V u a out)) = snd (snd (UserPwdAuth_Authenticate V u b out))"
  using assms
  by (cases "ReadUserPwd a"; cases "ReadUserPwd b";
      auto simp: UserPwdAuth_Authenticate_def Let_def split: outcome.splits option.splits prod.splits sum.splits)+

lemma ReadUserPwd_only_length:
  assumes d: "delivered r = [ver, ulen]"
  shows "fst (ReadUserPwd r) = Inl (stream_end r)"
proof -
  from d obtain r1 where 1: "ReadAtLeast r 2 = (([ver, ulen], None), r1)"
    and d1: "delivered r1 = []" and e1: "stream_end r1 = stream_end r"
    using ReadAtLeast_Some [of 2 r] by auto
  show ?thesis
  proof (cases "unat ulen = 0")
    case True
    from d1 obtain r2 where 2: "ReadAtLeast r1 0 = (([], None), r2)"
      and d2: "delivered r2 = []" and e2: "stream_end r2 = stream_end r1"
      using ReadAtLeast_Some [of 0 r1] by auto
    from d2 obtain r3 where 3: "ReadAtLeast r2 (Suc 0) = (([], Some (stream_end r2)), r3)"
      using ReadAtLeast_None [of r2 "Suc 0"] by auto
    show ?thesis by (simp add: ReadUserPwd_def 1 True 2 3 e1 e2)
  next
    case False
    with d1 obtain r2 where 2: "ReadAtLeast r1 (unat ulen) = (([], Some (stream_end r1)), r2)"
      using ReadAtLeast_None [of r1 "unat ulen"] by auto
    show ?thesis by (simp add: ReadUserPwd_def 1 2 e1)
  qed
qed

lemma delivered_set_first:
  "delivered (set_first b r) = (case delivered r of [] \<Rightarrow> [] | x # xs \<Rightarrow> b # xs)"
  by (induction b r rule: set_first.induct) simp_all

lemma stream_end_set_first: "stream_end (set_first b r) = stream_end r"
  by (induction b r rule: set_first.induct) simp_all

lemma ReadAtLeast_same:
  assumes d: "delivered a = delivered b" and e: "stream_end a = stream_end b"
  shows "\<exists>buf eo a' b'. ReadAtLeast a n = ((buf, eo), a') \<and> ReadAtLeast b n = ((buf, eo), b') \<and>
     (eo = None \<longrightarrow> delivered a' = delivered b' \<and> stream_end a' = stream_end b')"
proof (cases "n \<le> length (delivered a)")
  case True
  with d have "n \<le> length (delivered b)" by simp
  with True show ?thesis
    using ReadAtLeast_Some [of n a] ReadAtLeast_Some [of n b] d e by auto
next
  case False
  with d have "length (delivered a) < n" "length (delivered b) < n" by simp_all
  then show ?thesis
    using ReadAtLeast_None [of a n] ReadAtLeast_None [of b n] d e by auto
qed

lemma ReadUserPwd_cong:
  assumes d1: "delivered r1 = x # ds" and d2: "delivered r2 = y # ds"
    and e: "stream_end r1 = stream_end r2"
  shows "fst (ReadUserPwd r1) = fst (ReadUserPwd r2)"
proof (cases ds)
  case Nil
  with d1 d2 e obtain er a' b' where "ReadAtLeast r1 2 = (([x], Some er), a')"
    and "ReadAtLeast r2 2 = (([y], Some er), b')"
    using ReadAtLeast_None [of r1 2] ReadAtLeast_None [of r2 2] by auto
  then show ?thesis by (simp add: ReadUserPwd_def)
next
  case (Cons d ds')
  with d1 obtain a1 where a1: "ReadAtLeast r1 2 = (([x, d], None), a1)"
    and da1: "delivered a1 = ds'" and ea1: "stream_end a1 = stream_end r1"
    using ReadAtLeast_Some [of 2 r1] by auto
  from Cons d2 obtain b1 where b1: "ReadAtLeast r2 2 = (([y, d], None), b1)"
    and db1: "delivered b1 = ds'" and eb1: "stream_end b1 = stream_end r2"
    using ReadAtLeast_Some [of 2 r2] by auto
  from da1 db1 ea1 eb1 e have s1: "delivered a1 = delivered b1" "stream_end a1 = stream_end b1"
    by simp_all
  from ReadAtLeast_same [OF s1, of "unat d"] obtain uname eo2 a2 b2
    where a2: "ReadAtLeast a1 (unat d) = ((uname, eo2), a2)"
      and b2: "ReadAtLeast b1 (unat d) = ((uname, eo2), b2)"
      and s2: "eo2 = None \<longrightarrow> delivered a2 = delivered b2 \<and> stream_end a2 = stream_end b2"
    by blast
  show ?thesis
  proof (cases eo2)
    case (Some er)
    then show ?thesis by (simp add: ReadUserPwd_def a1 b1 a2 b2)
  next
    case eo2: None
    with s2 have s2': "delivered a2 = delivered b2" "stream_end a2 = stream_end b2" by simp_all
    from ReadAtLeast_same [OF s2', of "Suc 0"] obtain plen eo3 a3 b3
      where a3: "ReadAtLeast a2 (Suc 0) = ((plen, eo3), a3)"
        and b3: "ReadAtLeast b2 (Suc 0) = ((plen, eo3), b3)"
        and s3: "eo3 = None \<longrightarrow> delivered a3 = delivered b3 \<and> stream_end a3 = stream_end b3"
      by blast
    show ?thesis
    proof (cases eo3)
      case (Some er)
      then show ?thesis by (simp add: ReadUserPwd_def a1 b1 a2 b2 eo2 a3 b3)
    next
      case eo3: None
      with s3 have s3': "delivered a3 = delivered b3" "stream_end a3 = stream_end b3" by simp_all
      from ReadAtLeast_same [OF s3', of "unat (plen ! 0)"] obtain passwd eo4 a4 b4
        where a4: "ReadAtLeast a3 (unat (plen ! 0)) = ((passwd, eo4), a4)"
          and b4: "ReadAtLeast b3 (unat (plen ! 0)) = ((passwd, eo4), b4)"
        by blast
      show ?thesis
        by (cases eo4) (simp_all add: ReadUserPwd_def a1 b1 a2 b2 eo2 a3 b3 eo3 a4 b4)
    qed
  qed
qed

lemma ReadUserPwd_set_first: "fst (ReadUserPwd (set_first b r)) = fst (ReadUserPwd r)"
proof (cases "delivered r")
  case Nil
  then have "set_first b r = r"
    by (induction b r rule: set_first.induct) simp_all
  then show ?thesis by simp
next
  case (Cons x ds)
  then have "delivered (set_first b r) = b # ds" by (simp add: delivered_set_first)
  from ReadUserPwd_cong [OF this Cons stream_end_set_first] show ?thesis .
qed


section \<open>The credential store\<close>

lemma Set_Returns:
  assumes "MemoryStore_Set m u p = Returns (e, m1)"
  shows "\<exists>h us. Hash m = Some h \<and> Users m = Some us \<and> e = None \<and>
     m1 = m\<lparr>Users := Some (us(u \<mapsto> hash_Sum h (p @ algoSecret m)))\<rparr>"
  using assms by (auto simp: MemoryStore_Set_def Let_def split: option.splits)

lemma Set_frame:
  assumes "MemoryStore_Set m u p = Returns (e, m1)"
  shows "Hash m1 = Hash m" and "algoSecret m1 = algoSecret m"
    and "u' \<noteq> u \<Longrightarrow> lookup (Users m1) u' = lookup (Users m) u'"
  using Set_Returns [OF assms] by (auto simp: lookup_def)

lemma Del_frame:
  shows "Hash (snd (MemoryStore_Del m u)) = Hash m"
    and "algoSecret (snd (MemoryStore_Del m u)) = algoSecret m"
    and "u' \<noteq> u \<Longrightarrow> lookup (Users (snd (MemoryStore_Del m u))) u' = lookup (Users m) u'"
  by (auto simp: MemoryStore_Del_def lookup_def split: option.splits)

lemma Del_removes: "lookup (Users (snd (MemoryStore_Del m u))) u = None"
  by (auto simp: MemoryStore_Del_def lookup_def split: option.splits)

lemma step_frame:
  shows "Hash (step m c) = Hash m" and "algoSecret (step m c) = algoSecret m"
    and "\<not> writes_user u c \<Longrightarrow> lookup (Users (step m c)) u = lookup (Users m) u"
proof -
  show "Hash (step m c) = Hash m"
    by (cases c) (auto simp: Set_frame Del_frame split: outcome.splits)
  show "algoSecret (step m c) = algoSecret m"
    by (cases c) (auto simp: Set_frame Del_frame split: outcome.splits)
  show "\<not> writes_user u c \<Longrightarrow> lookup (Users (step m c)) u = lookup (Users m) u"
    by (cases c) (auto simp: Set_frame Del_frame split: outcome.splits)
qed

lemma history_frame:
  assumes "\<forall>c \<in> set cs. \<not> writes_user u c"
  shows "Hash (foldl step m cs) = Hash m \<and> algoSecret (foldl step m cs) = algoSecret m \<and>
     lookup (Users (foldl step m cs)) u = lookup (Users m) u"
  using assms by (induction cs arbitrary: m) (simp_all add: step_frame)

lemma step_absent:
  assumes "lookup (Users m) u = None" and "\<not> sets_user u c"
  shows "lookup (Users (step m c)) u = None"
proof (cases "writes_user u c")
  case False
  with assms show ?thesis by (simp add: step_frame)
next
  case True
  with assms obtain "c = CallDel u" by (cases c) auto
  then show ?thesis by (simp add: Del_removes)
qed

lemma history_absent:
  assumes "lookup (Users m) u = None" and "\<forall>c \<in> set cs. \<not> sets_user u c"
  shows "lookup (Users (foldl step m cs)) u = None"
  using assms by (induction cs arbitrary: m) (simp_all add: step_absent)

lemma Validate_stored:
  assumes "lookup (Users m) u = Some v" and "Hash m = Some h"
  shows "MemoryStore_Validate m u p =
     (if hash_Sum h (p @ algoSecret m) = v then Returns None else Returns (Some (BadPassword u)))"
  using assms by (simp add: MemoryStore_Validate_def Let_def)

lemma Validate_absent:
  assumes "lookup (Users m) u = None"
  shows "MemoryStore_Validate m u p = Returns (Some (UserNotExist u))"
  using assms by (simp add: MemoryStore_Validate_def)

lemma Del_absent:
  assumes "lookup (Users m) u = None"
  shows "MemoryStore_Del m u = (Some (UserNotExist u), m)"
  using assms by (simp add: MemoryStore_Del_def)

text \<open>
  What \<open>Validate\<close> decides for an entry that \<open>Set\<close> wrote. After \<open>Set(u, p)\<close> has returned,
  and whatever calls follow that neither set nor delete \<open>u\<close>, the stored value is \<open>p\<close>, then
  the secret, then the digest of what had been written to the hash; \<open>Validate(u, q)\<close>
  returns nil when \<open>q = p\<close> and the bad-password error otherwise.
\<close>

theorem Validate_after_Set:
  assumes set: "MemoryStore_Set m u p = Returns (e, m1)"
    and later: "\<forall>c \<in> set cs. \<not> writes_user u c"
  shows "\<exists>h. Hash m1 = Some h \<and>
     lookup (Users (foldl step m1 cs)) u = Some (p @ algoSecret m1 @ digest h (absorbed h)) \<and>
     (\<forall>q. MemoryStore_Validate (foldl step m1 cs) u q =
        (if q = p then Returns None else Returns (Some (BadPassword u))))"
proof -
  from Set_Returns [OF set] obtain h us where h: "Hash m = Some h" and us: "Users m = Some us"
    and m1: "m1 = m\<lparr>Users := Some (us(u \<mapsto> hash_Sum h (p @ algoSecret m)))\<rparr>"
    by blast
  let ?m2 = "foldl step m1 cs"
  let ?v = "hash_Sum h (p @ algoSecret m)"
  from history_frame [OF later, of m1] m1 h
  have h2: "Hash ?m2 = Some h" and s2: "algoSecret ?m2 = algoSecret m"
    and v2: "lookup (Users ?m2) u = Some ?v"
    by (simp_all add: lookup_def)
  have val: "MemoryStore_Validate ?m2 u q =
      (if q = p then Returns None else Returns (Some (BadPassword u)))" for q
    using Validate_stored [OF v2 h2, of q] by (simp add: s2 hash_Sum_def)
  have "Hash m1 = Some h" and "algoSecret m1 = algoSecret m"
    using m1 h by simp_all
  moreover have "?v = p @ algoSecret m @ digest h (absorbed h)"
    by (simp add: hash_Sum_def)
  ultimately show ?thesis using v2 val by auto
qed

theorem Validate_after_Set_witness:
  "MemoryStore_Set example_store [0x61] [0x70, 0x77] =
     Returns (None, step example_store (CallSet [0x61] [0x70, 0x77])) \<and>
   lookup (Users
     (foldl step (step example_store (CallSet [0x61] [0x70, 0x77]))
        [CallSet [0x62] [0x78], CallDel [0x63], CallValidate [0x61] [0x71]]))
     [0x61] = Some [0x70, 0x77, 0x73, 0x00, 0x00] \<and>
   MemoryStore_Validate
     (foldl step (step example_store (CallSet [0x61] [0x70, 0x77]))
        [CallSet [0x62] [0x78], CallDel [0x63], CallValidate [0x61] [0x71]])
     [0x61] [0x70, 0x77] = Returns None \<and>
   MemoryStore_Validate
     (foldl step (step example_store (CallSet [0x61] [0x70, 0x77]))
        [CallSet [0x62] [0x78], CallDel [0x63], CallValidate [0x61] [0x71]])
     [0x61] [0x71] = Returns (Some (BadPassword [0x61]))"
proof -
  have stored: "MemoryStore_Set example_store [0x61] [0x70, 0x77] =
      Returns (None, step example_store (CallSet [0x61] [0x70, 0x77]))"
    by (simp add: MemoryStore_Set_def example_store_def)
  have later: "\<forall>c \<in> set [CallSet [0x62] [0x78], CallDel [0x63], CallValidate [0x61] [0x71]].
      \<not> writes_user [0x61] c"
    by simp
  have h: "Hash (step example_store (CallSet [0x61] [0x70, 0x77])) = Some example_hash"
    and s: "algoSecret (step example_store (CallSet [0x61] [0x70, 0x77])) = [0x73]"
    by (simp_all add: MemoryStore_Set_def example_store_def)
  have d: "digest example_hash (absorbed example_hash) = [0x00, 0x00]"
    by (simp add: example_hash_def)
  from Validate_after_Set [OF stored later] obtain h'
    where h': "Hash (step example_store (CallSet [0x61] [0x70, 0x77])) = Some h'"
      and v: "lookup (Users
          (foldl step (step example_store (CallSet [0x61] [0x70, 0x77]))
             [CallSet [0x62] [0x78], CallDel [0x63], CallValidate [0x61] [0x71]]))
          [0x61] =
        Some ([0x70, 0x77] @ algoSecret (step example_store (CallSet [0x61] [0x70, 0x77])) @
          digest h' (absorbed h'))"
      and val: "\<And>q. MemoryStore_Validate
          (foldl step (step example_store (CallSet [0x61] [0x70, 0x77]))
             [CallSet [0x62] [0x78], CallDel [0x63], CallValidate [0x61] [0x71]])
          [0x61] q =
        (if q = [0x70, 0x77] then Returns None else Returns (Some (BadPassword [0x61])))"
    by blast
  from h h' have "h' = example_hash" by simp
  with v s d have entry: "lookup (Users
      (foldl step (step example_store (CallSet [0x61] [0x70, 0x77]))
         [CallSet [0x62] [0x78], CallDel [0x63], CallValidate [0x61] [0x71]]))
      [0x61] = Some [0x70, 0x77, 0x73, 0x00, 0x00]"
    by simp
  show ?thesis
    unfolding val using stored entry by simp
qed

text \<open>
  Claim C3, at an input where it fails. The secret is \<^verbatim>\<open>s\<close> and the digest of \<^verbatim>\<open>pws\<close>, the
  password followed by the secret, is \<^verbatim>\<open>5A 03\<close>. For the entry that holds this digest
  \<open>Validate("a", "pw")\<close> returns the bad-password error; it returns nil for the entry that
  holds \<^verbatim>\<open>p w s 00 00\<close>. What \<open>Validate\<close> compares with the stored value is the password and
  the secret in plaintext followed by the digest of the empty input, not the digest of the
  password and the secret.
\<close>

theorem C3_Validate_compares_plaintext:
  "digest example_hash ([0x70, 0x77] @ [0x73]) = [0x5A, 0x03] \<and>
   MemoryStore_Validate (example_store\<lparr>Users := Some [[0x61] \<mapsto> [0x5A, 0x03]]\<rparr>)
     [0x61] [0x70, 0x77] = Returns (Some (BadPassword [0x61])) \<and>
   MemoryStore_Validate (example_store\<lparr>Users := Some [[0x61] \<mapsto> [0x70, 0x77, 0x73, 0x00, 0x00]]\<rparr>)
     [0x61] [0x70, 0x77] = Returns None"
  by (simp add: MemoryStore_Validate_def example_store_def example_hash_def hash_Sum_def lookup_def)

text \<open>
  Claim C5. For a username with no stored entry, \<open>Validate\<close> and \<open>Del\<close> both fail with
  \<open>UserNotExist\<close> carrying that username. A username stays without an entry through any
  calls other than a \<open>Set\<close> of it: so it has none when it was never set, or was deleted
  since. After \<open>Set(u, p)\<close> then \<open>Del(u)\<close> the map is the one before the \<open>Set\<close> without
  \<open>u\<close>, and \<open>Validate(u, p)\<close> fails with \<open>UserNotExist\<close>.
\<close>

theorem C5_absent_user:
  "(lookup (Users m) u = None \<longrightarrow>
      MemoryStore_Validate m u p = Returns (Some (UserNotExist u)) \<and>
      MemoryStore_Del m u = (Some (UserNotExist u), m)) \<and>
   (lookup (Users m) u = None \<and> (\<forall>c \<in> set cs. \<not> sets_user u c) \<longrightarrow>
      lookup (Users (foldl step m cs)) u = None) \<and>
   (\<forall>e m1. MemoryStore_Set m u p = Returns (e, m1) \<longrightarrow>
      fst (MemoryStore_Del m1 u) = None \<and>
      lookup (Users (snd (MemoryStore_Del m1 u))) u = None \<and>
      Users (snd (MemoryStore_Del m1 u)) = map_option (\<lambda>us. us(u := None)) (Users m) \<and>
      MemoryStore_Validate (snd (MemoryStore_Del m1 u)) u p = Returns (Some (UserNotExist u)) \<and>
      MemoryStore_Del (snd (MemoryStore_Del m1 u)) u =
        (Some (UserNotExist u), snd (MemoryStore_Del m1 u)))"
proof (intro conjI impI allI)
  assume "lookup (Users m) u = None"
  then show "MemoryStore_Validate m u p = Returns (Some (UserNotExist u))"
    and "MemoryStore_Del m u = (Some (UserNotExist u), m)"
    by (rule Validate_absent, rule Del_absent)
next
  assume "lookup (Users m) u = None \<and> (\<forall>c \<in> set cs. \<not> sets_user u c)"
  then show "lookup (Users (foldl step m cs)) u = None"
    by (simp add: history_absent)
next
  fix e m1
  assume "MemoryStore_Set m u p = Returns (e, m1)"
  from Set_Returns [OF this] obtain h us where us: "Users m = Some us"
    and m1: "m1 = m\<lparr>Users := Some (us(u \<mapsto> hash_Sum h (p @ algoSecret m)))\<rparr>"
    by blast
  let ?m2 = "snd (MemoryStore_Del m1 u)"
  show "fst (MemoryStore_Del m1 u) = None"
    by (simp add: m1 MemoryStore_Del_def lookup_def)
  show gone: "lookup (Users ?m2) u = None"
    by (rule Del_removes)
  show "Users ?m2 = map_option (\<lambda>us. us(u := None)) (Users m)"
    by (simp add: m1 us MemoryStore_Del_def lookup_def)
  show "MemoryStore_Validate ?m2 u p = Returns (Some (UserNotExist u))"
    using gone by (rule Validate_absent)
  show "MemoryStore_Del ?m2 u = (Some (UserNotExist u), ?m2)"
    using gone by (rule Del_absent)
qed

theorem C5_absent_user_witness:
  "lookup (Users example_store) [0x61] = None \<and>
   MemoryStore_Validate example_store [0x61] [0x70] = Returns (Some (UserNotExist [0x61])) \<and>
   MemoryStore_Del example_store [0x61] = (Some (UserNotExist [0x61]), example_store) \<and>
   lookup (Users (foldl step example_store [CallDel [0x61], CallSet [0x62] [0x78]])) [0x61] = None \<and>
   MemoryStore_Set example_store [0x61] [0x70] =
     Returns (None, step example_store (CallSet [0x61] [0x70])) \<and>
   fst (MemoryStore_Del (step example_store (CallSet [0x61] [0x70])) [0x61]) = None \<and>
   MemoryStore_Validate (snd (MemoryStore_Del (step example_store (CallSet [0x61] [0x70])) [0x61]))
     [0x61] [0x70] = Returns (Some (UserNotExist [0x61]))"
proof -
  have absent: "lookup (Users example_store) [0x61] = None"
    by (simp add: example_store_def lookup_def)
  have calls: "\<forall>c \<in> set [CallDel [0x61], CallSet [0x62] [0x78]]. \<not> sets_user [0x61] c"
    by simp
  have stored: "MemoryStore_Set example_store [0x61] [0x70] =
      Returns (None, step example_store (CallSet [0x61] [0x70]))"
    by (simp add: MemoryStore_Set_def example_store_def)
  from C5_absent_user [of example_store "[0x61]" "[0x70]" "[CallDel [0x61], CallSet [0x62] [0x78]]"]
    absent calls stored
  show ?thesis by blast
qed

section \<open>The authenticators\<close>

text \<open>
  Claim C2. When the stream delivers one byte, a length byte, that many username bytes, a
  length byte and that many password bytes (in whatever chunks, followed by anything),
  \<open>ReadUserPwd\<close> returns exactly those username and password bytes: the first byte is read
  and dropped, only the second byte of the two-byte field is the username length, and what
  follows the password stays in the stream.
\<close>

theorem C2_ReadUserPwd_parses:
  assumes stream: "delivered inp = ver # ulen # uname @ plen # passwd @ rest"
    and ul: "length uname = unat ulen" and pl: "length passwd = unat plen"
  shows "fst (ReadUserPwd inp) = Inr (uname, passwd) \<and> delivered (snd (ReadUserPwd inp)) = rest"
proof
  show "fst (ReadUserPwd inp) = Inr (uname, passwd)"
    using stream ul pl by (rule ReadUserPwd_parsed(1))
  show "delivered (snd (ReadUserPwd inp)) = rest"
    using stream ul pl by (rule ReadUserPwd_parsed(2))
qed

theorem C2_ReadUserPwd_parses_witness:
  "fst (ReadUserPwd [Data [0x09, 2, 0x61], Data [0x62, 1, 0x70, 0xEE]]) = Inr ([0x61, 0x62], [0x70]) \<and>
   delivered (snd (ReadUserPwd [Data [0x09, 2, 0x61], Data [0x62, 1, 0x70, 0xEE]])) = [0xEE]"
proof -
  have stream: "delivered [Data [0x09, 2, 0x61], Data [0x62, 1, 0x70, 0xEE]] =
      0x09 # 2 # [0x61, 0x62] @ 1 # [0x70] @ [0xEE]"
    by simp
  have ul: "length [0x61, 0x62 :: byte] = unat (2 :: byte)" by simp
  have pl: "length [0x70 :: byte] = unat (1 :: byte)" by simp
  from C2_ReadUserPwd_parses [OF stream ul pl] show ?thesis .
qed

lemma ReadAtLeast_cases:
  obtains (enough) r' where "n \<le> length (delivered r)"
      and "ReadAtLeast r n = ((take n (delivered r), None), r')"
      and "delivered r' = drop n (delivered r)"
  | (short) bs e r' where "length (delivered r) < n" and "ReadAtLeast r n = ((bs, Some e), r')"
proof (cases "n \<le> length (delivered r)")
  case True
  with ReadAtLeast_Some [OF True] enough show ?thesis by blast
next
  case False
  then have "length (delivered r) < n" by simp
  with ReadAtLeast_None [OF this] short show ?thesis by blast
qed

text \<open>
  The converse: whenever \<open>ReadUserPwd\<close> returns a username and a password, the stream
  delivered a byte, the username's length, the username, the password's length and the
  password, and what is left in the stream is what followed them.
\<close>

theorem ReadUserPwd_returns_only_handshakes:
  assumes "fst (ReadUserPwd inp) = Inr (uname, passwd)"
  shows "\<exists>ver ulen plen.
     delivered inp = ver # ulen # uname @ plen # passwd @ delivered (snd (ReadUserPwd inp)) \<and>
     length uname = unat ulen \<and> length passwd = unat plen"
proof (cases rule: ReadAtLeast_cases [of 2 inp])
  case (short bs e r')
  with assms show ?thesis by (simp add: ReadUserPwd_def)
next
  case (enough r1)
  then obtain ver ulen d1 where d: "delivered inp = ver # ulen # d1"
    by (cases "delivered inp"; cases "tl (delivered inp)") auto
  with enough have 1: "ReadAtLeast inp 2 = (([ver, ulen], None), r1)" and d1: "delivered r1 = d1"
    by simp_all
  show ?thesis
  proof (cases rule: ReadAtLeast_cases [of "unat ulen" r1])
    case (short bs e r')
    with assms 1 show ?thesis by (simp add: ReadUserPwd_def)
  next
    case (enough r2)
    note 2 = enough
    show ?thesis
    proof (cases rule: ReadAtLeast_cases [of "Suc 0" r2])
      case (short bs e r')
      with assms 1 2 show ?thesis by (simp add: ReadUserPwd_def)
    next
      case (enough r3)
      then obtain plen d3 where d2: "delivered r2 = plen # d3"
        by (cases "delivered r2") auto
      with enough have 3: "ReadAtLeast r2 (Suc 0) = (([plen], None), r3)"
        and d3: "delivered r3 = d3"
        by simp_all
      show ?thesis
      proof (cases rule: ReadAtLeast_cases [of "unat plen" r3])
        case (short bs e r')
        with assms 1 2 3 show ?thesis by (simp add: ReadUserPwd_def)
      next
        case (enough r4)
        with assms 1 2 3 have R: "ReadUserPwd inp = (Inr (uname, passwd), r4)"
          and un: "uname = take (unat ulen) d1" and pw: "passwd = take (unat plen) d3"
          by (simp_all add: ReadUserPwd_def d1 d3)
        have "d1 = uname @ drop (unat ulen) d1" by (simp add: un)
        moreover have "drop (unat ulen) d1 = plen # d3" using 2 d1 d2 by simp
        moreover have "d3 = passwd @ delivered r4" using enough d3 pw by simp
        ultimately have "delivered inp = ver # ulen # uname @ plen # passwd @ delivered r4"
          using d by simp
        moreover have "length uname = unat ulen" using un 2 d1 by simp
        moreover have "length passwd = unat plen" using pw enough d3 by simp
        ultimately show ?thesis using R by auto
      qed
    qed
  qed
qed

theorem ReadUserPwd_returns_only_handshakes_witness:
  "fst (ReadUserPwd [Data [0x09, 2, 0x61], Data [0x62, 1, 0x70, 0xEE]]) = Inr ([0x61, 0x62], [0x70]) \<and>
   (\<exists>ver ulen plen.
     delivered [Data [0x09, 2, 0x61], Data [0x62, 1, 0x70, 0xEE]] =
       ver # ulen # [0x61, 0x62] @ plen # [0x70] @
         delivered (snd (ReadUserPwd [Data [0x09, 2, 0x61], Data [0x62, 1, 0x70, 0xEE]])) \<and>
     length [0x61, 0x62 :: byte] = unat ulen \<and> length [0x70 :: byte] = unat plen)"
proof -
  have parsed: "fst (ReadUserPwd [Data [0x09, 2, 0x61], Data [0x62, 1, 0x70, 0xEE]]) =
      Inr ([0x61, 0x62], [0x70])"
    by code_simp
  from ReadUserPwd_returns_only_handshakes [OF parsed] parsed show ?thesis by blast
qed

text \<open>
  Claim C4. \<open>NoAuth.Authenticate\<close> makes one \<open>Write\<close> of the two bytes \<^verbatim>\<open>[Version5, 0x00]\<close>,
  returns that write's error, and leaves the reader as it was; when the write succeeds the
  call returns nil and the two bytes are what was added to the write side.
\<close>

theorem C4_NoAuth:
  "NoAuth_Authenticate V inp out =
     (map_option Transport (fst (Write out [V, 0x00])), inp, snd (Write out [V, 0x00])) \<and>
   (fst (Write out [V, 0x00]) = None \<longrightarrow>
      NoAuth_Authenticate V inp out = (None, inp, snd (Write out [V, 0x00])) \<and>
      written (snd (Write out [V, 0x00])) = written out @ [V, 0x00])"
proof (intro conjI impI)
  show run: "NoAuth_Authenticate V inp out =
      (map_option Transport (fst (Write out [V, 0x00])), inp, snd (Write out [V, 0x00]))"
    by (cases "Write out [V, 0x00]")
       (auto simp: NoAuth_Authenticate_def NO_AUTHENTICATION_REQUIRED_def Let_def
             simp del: Write.simps)
  assume ok: "fst (Write out [V, 0x00]) = None"
  with run show "NoAuth_Authenticate V inp out = (None, inp, snd (Write out [V, 0x00]))"
    by simp
  from ok show "written (snd (Write out [V, 0x00])) = written out @ [V, 0x00]"
    by (auto split: list.splits wevent.splits)
qed

theorem C4_NoAuth_witness:
  "fst (Write \<lparr>written = [], pending = [Accept]\<rparr> [0x05, 0x00]) = None \<and>
   NoAuth_Authenticate 0x05 [Data [0x01, 0x02]] \<lparr>written = [], pending = [Accept]\<rparr> =
     (None, [Data [0x01, 0x02]], \<lparr>written = [0x05, 0x00], pending = []\<rparr>)"
proof -
  have ok: "fst (Write \<lparr>written = [], pending = [Accept]\<rparr> [0x05, 0x00]) = None" by simp
  from C4_NoAuth [of "0x05" "[Data [0x01, 0x02]]" "\<lparr>written = [], pending = [Accept]\<rparr>"] ok
  show ?thesis by simp
qed

text \<open>
  Claim C6. When the stream delivers only the two-byte field that holds the username length
  and then ends or fails, \<open>Authenticate\<close> returns the stream's error (\<^verbatim>\<open>io.EOF\<close> for a
  closed stream) and the write side is untouched.
\<close>

theorem C6_short_read:
  assumes "delivered inp = [ver, ulen]"
  shows "fst (UserPwdAuth_Authenticate V u inp out) = Returns (Some (Transport (stream_end inp))) \<and>
     snd (snd (UserPwdAuth_Authenticate V u inp out)) = out"
proof -
  from assms have "fst (ReadUserPwd inp) = Inl (stream_end inp)"
    by (rule ReadUserPwd_only_length)
  then have "UserPwdAuth_Authenticate V u inp out =
      (Returns (Some (Transport (stream_end inp))), snd (ReadUserPwd inp), out)"
    by (rule Authenticate_read_error)
  then show ?thesis by simp
qed

theorem C6_short_read_witness:
  "delivered [Data [0x01], Data [0x03]] = [0x01, 0x03] \<and>
   fst (UserPwdAuth_Authenticate 0x05 (Some (MemoryStore_Validate example_store))
     [Data [0x01], Data [0x03]] \<lparr>written = [], pending = []\<rparr>) = Returns (Some (Transport EOF)) \<and>
   snd (snd (UserPwdAuth_Authenticate 0x05 (Some (MemoryStore_Validate example_store))
     [Data [0x01], Data [0x03]] \<lparr>written = [], pending = []\<rparr>)) = \<lparr>written = [], pending = []\<rparr>"
proof -
  have only: "delivered [Data [0x01], Data [0x03]] = [0x01, 0x03]" by simp
  from C6_short_read [OF only, of "0x05" "Some (MemoryStore_Validate example_store)"
      "\<lparr>written = [], pending = []\<rparr>"] only
  show ?thesis by simp
qed

text \<open>
  Claim C7, at inputs where it fails. The handshake \<^verbatim>\<open>01 00 00\<close> declares a username and a
  password of length zero: with the empty username set in the store it authenticates and
  the success reply is written. The handshake \<^verbatim>\<open>01 00 01 78\<close> declares a username of length
  zero: on the empty store it reaches \<open>Validate\<close>, which answers \<open>UserNotExist\<close> for the empty
  username, and the failure reply is written. Neither is refused as a malformed handshake.
\<close>

theorem C7_zero_lengths_reach_Validate:
  "UserPwdAuth_Authenticate 0x05
     (Some (MemoryStore_Validate (step example_store (CallSet [] []))))
     [Data [0x01, 0x00, 0x00]] \<lparr>written = [], pending = []\<rparr> =
   (Returns None, [], \<lparr>written = [0x05, 0x00], pending = []\<rparr>) \<and>
   UserPwdAuth_Authenticate 0x05 (Some (MemoryStore_Validate example_store))
     [Data [0x01, 0x00, 0x01, 0x78]] \<lparr>written = [], pending = []\<rparr> =
   (Returns (Some (UserNotExist [])), [], \<lparr>written = [0x05, 0x01], pending = []\<rparr>)"
  by code_simp

text \<open>
  The failure path of \<open>Authenticate\<close>, for every store and writer: when \<open>Validate\<close> returns
  an error, one \<open>Write\<close> of \<^verbatim>\<open>[Version5, 1]\<close> is made and the error of \<open>Validate\<close> is
  returned, whether that write succeeds or not.
\<close>

theorem Authenticate_rejected:
  assumes parsed: "fst (ReadUserPwd inp) = Inr (uname, passwd)"
    and rejected: "validate uname passwd = Returns (Some err)"
  shows "UserPwdAuth_Authenticate V (Some validate) inp out =
     (Returns (Some err), snd (ReadUserPwd inp), snd (Write out [V, 1]))"
  using Authenticate_parsed [OF parsed, of V validate out] rejected by simp

theorem Authenticate_rejected_witness:
  "fst (ReadUserPwd [Data [0x01, 0x01, 0x62, 0x01, 0x78]]) = Inr ([0x62], [0x78]) \<and>
   MemoryStore_Validate example_store [0x62] [0x78] = Returns (Some (UserNotExist [0x62])) \<and>
   UserPwdAuth_Authenticate 0x05 (Some (MemoryStore_Validate example_store))
     [Data [0x01, 0x01, 0x62, 0x01, 0x78]] \<lparr>written = [], pending = [Reject 1 EOF]\<rparr> =
   (Returns (Some (UserNotExist [0x62])), [], \<lparr>written = [0x05], pending = []\<rparr>)"
proof -
  have parsed: "fst (ReadUserPwd [Data [0x01, 0x01, 0x62, 0x01, 0x78]]) = Inr ([0x62], [0x78])"
    by code_simp
  have rest: "snd (ReadUserPwd [Data [0x01, 0x01, 0x62, 0x01, 0x78]]) = []"
    by code_simp
  have rejected: "MemoryStore_Validate example_store [0x62] [0x78] =
      Returns (Some (UserNotExist [0x62]))"
    by (simp add: MemoryStore_Validate_def example_store_def lookup_def)
  from Authenticate_rejected [where validate = "MemoryStore_Validate example_store"
      and V = "0x05" and out = "\<lparr>written = [], pending = [Reject 1 EOF]\<rparr>", OF parsed rejected]
    parsed rejected rest
  show ?thesis by simp
qed

text \<open>
  Claim C8, at the input where it fails. The store has no user \<^verbatim>\<open>b\<close>, so \<open>Validate\<close>
  returns \<open>UserNotExist\<close>; the write of the failure reply then fails with a stream error.
  \<open>Authenticate\<close> returns the \<open>UserNotExist\<close> error: the error of the write is dropped.
\<close>

theorem C8_reply_write_error_dropped:
  "UserPwdAuth_Authenticate 0x05 (Some (MemoryStore_Validate example_store))
     [Data [0x01, 0x01, 0x62, 0x01, 0x78]] \<lparr>written = [], pending = [Reject 0 (StreamError 7)]\<rparr> =
   (Returns (Some (UserNotExist [0x62])), [], \<lparr>written = [], pending = []\<rparr>)"
  by code_simp

text \<open>
  Claim C10. Changing the first byte of the stream changes neither what \<open>ReadUserPwd\<close>
  returns (username, password or error) nor what \<open>Authenticate\<close> returns and writes.
\<close>

theorem C10_first_byte_ignored:
  "fst (ReadUserPwd (set_first b inp)) = fst (ReadUserPwd inp) \<and>
   fst (UserPwdAuth_Authenticate V u (set_first b inp) out) =
     fst (UserPwdAuth_Authenticate V u inp out) \<and>
   snd (snd (UserPwdAuth_Authenticate V u (set_first b inp) out)) =
     snd (snd (UserPwdAuth_Authenticate V u inp out))"
proof (intro conjI)
  show same: "fst (ReadUserPwd (set_first b inp)) = fst (ReadUserPwd inp)"
    by (rule ReadUserPwd_set_first)
  from same show "fst (UserPwdAuth_Authenticate V u (set_first b inp) out) =
      fst (UserPwdAuth_Authenticate V u inp out)"
    by (rule Authenticate_cong(1))
  from same show "snd (snd (UserPwdAuth_Authenticate V u (set_first b inp) out)) =
      snd (snd (UserPwdAuth_Authenticate V u inp out))"
    by (rule Authenticate_cong(2))
qed

text \<open>
  The three end-to-end runs of the username/password method, with the secret \<^verbatim>\<open>s\<close>: after
  \<open>Set("alice", "secret")\<close> the handshake for alice / secret is answered \<^verbatim>\<open>05 00\<close> and
  succeeds; the handshake for alice / wrong is answered \<^verbatim>\<open>05 01\<close> and fails with the
  bad-password error; on the empty store the handshake for bob / x is answered \<^verbatim>\<open>05 01\<close>
  and fails with \<open>UserNotExist\<close>.
\<close>

theorem end_to_end_scenarios:
  "UserPwdAuth_Authenticate 0x05
     (Some (MemoryStore_Validate
        (step example_store (CallSet [0x61, 0x6C, 0x69, 0x63, 0x65] [0x73, 0x65, 0x63, 0x72, 0x65, 0x74]))))
     [Data [0x01, 0x05, 0x61, 0x6C, 0x69, 0x63, 0x65, 0x06, 0x73, 0x65, 0x63, 0x72, 0x65, 0x74]]
     \<lparr>written = [], pending = []\<rparr> =
   (Returns None, [], \<lparr>written = [0x05, 0x00], pending = []\<rparr>) \<and>
   UserPwdAuth_Authenticate 0x05
     (Some (MemoryStore_Validate
        (step example_store (CallSet [0x61, 0x6C, 0x69, 0x63, 0x65] [0x73, 0x65, 0x63, 0x72, 0x65, 0x74]))))
     [Data [0x01, 0x05, 0x61, 0x6C, 0x69, 0x63, 0x65, 0x05, 0x77, 0x72, 0x6F, 0x6E, 0x67]]
     \<lparr>written = [], pending = []\<rparr> =
   (Returns (Some (BadPassword [0x61, 0x6C, 0x69, 0x63, 0x65])), [],
    \<lparr>written = [0x05, 0x01], pending = []\<rparr>) \<and>
   UserPwdAuth_Authenticate 0x05 (Some (MemoryStore_Validate example_store))
     [Data [0x01, 0x03, 0x62, 0x6F, 0x62, 0x01, 0x78]] \<lparr>written = [], pending = []\<rparr> =
   (Returns (Some (UserNotExist [0x62, 0x6F, 0x62])), [], \<lparr>written = [0x05, 0x01], pending = []\<rparr>)"
  by code_simp

section \<open>The stored value\<close>

text \<open>
  What \<open>Set\<close> stores, for every store whose map and hash are not nil: the password, then the
  secret, then the digest of what had been written to the hash before the call.
\<close>

lemma Set_stored_value:
  "MemoryStore_Set \<lparr>Users = Some us, Hash = Some h, algoSecret = s\<rparr> u p =
     Returns (None, \<lparr>Users = Some (us(u \<mapsto> p @ s @ digest h (absorbed h))), Hash = Some h,
       algoSecret = s\<rparr>)"
  by (simp add: MemoryStore_Set_def hash_Sum_def)

text \<open>
  Claim C1, at an input where it fails. With the secret \<^verbatim>\<open>s\<close>, \<open>Set("a", "pw")\<close> stores
  the bytes \<^verbatim>\<open>p w s 00 00\<close>: the plaintext password, the secret, and the digest of the
  empty input.
\<close>

theorem C1_Set_keeps_plaintext:
  "MemoryStore_Set example_store [0x61] [0x70, 0x77] =
     Returns (None, example_store\<lparr>Users := Some [[0x61] \<mapsto> [0x70, 0x77, 0x73, 0x00, 0x00]]\<rparr>)"
  by (simp add: MemoryStore_Set_def example_store_def example_hash_def hash_Sum_def)

end
